theory Spec2Isabelle
  imports Main "HOL-Library.Word"
begin

section \<open>The arrayReader of wasmws: an io.ReadCloser over a JavaScript ArrayBuffer\<close>

text \<open>
  This theory embeds \<^verbatim>\<open>src/arrayreader_js.go\<close>. The Go struct is a record, each method
  is a function that takes the receiver and returns the receiver as the method leaves it,
  and everything the method does besides returning (panicking, blocking on the promise,
  calling into JavaScript) is part of the returned value.
\<close>

subsection \<open>Go byte slices\<close>

text \<open>
  A Go slice is a pointer into a backing array together with a length and a capacity.
  Only the cells from the pointer up to the capacity can ever be reached through the
  slice or through anything sliced from it, so a slice is modelled by exactly those
  cells: the first \<open>len\<close> of them (\<open>live\<close>) are the slice's elements, the rest
  (\<open>spare\<close>) are the cells between its length and its capacity. The \<^verbatim>\<open>nil\<close> slice
  has no backing array.
\<close>

type_synonym byte = "8 word"

datatype goslice = NilSlice | Slice (live: "byte list") (spare: "byte list")

fun bytes_of :: "goslice \<Rightarrow> byte list" where
  "bytes_of NilSlice = []"
| "bytes_of (Slice l s) = l"

fun cells_of :: "goslice \<Rightarrow> byte list" where
  "cells_of NilSlice = []"
| "cells_of (Slice l s) = l @ s"

definition slen :: "goslice \<Rightarrow> nat" where
  "slen g = length (bytes_of g)"

definition scap :: "goslice \<Rightarrow> nat" where
  "scap g = length (cells_of g)"

text \<open>
  \<^verbatim>\<open>s[:n]\<close>, for \<open>n \<le> cap s\<close>. Go panics beyond the capacity; \<^verbatim>\<open>fromArray\<close> tests
  \<^verbatim>\<open>count <= cap(ar.remaining)\<close> before it slices and \<^verbatim>\<open>Reset\<close> slices to 0, so
  neither caller leaves that range.
\<close>

fun slice_to :: "goslice \<Rightarrow> nat \<Rightarrow> goslice" where
  "slice_to NilSlice n = NilSlice"
| "slice_to (Slice l s) n = Slice (take n (l @ s)) (drop n (l @ s))"

text \<open>
  \<^verbatim>\<open>s[n:]\<close>, for \<open>n \<le> len s\<close>: the pointer moves forward, and the cells before it
  are out of reach from then on. \<^verbatim>\<open>Read\<close> calls it with the result of \<^verbatim>\<open>copy\<close>,
  which never exceeds the length.
\<close>

fun slice_from :: "goslice \<Rightarrow> nat \<Rightarrow> goslice" where
  "slice_from NilSlice n = NilSlice"
| "slice_from (Slice l s) n = Slice (drop n l) s"

text \<open>\<^verbatim>\<open>make([]byte, count)\<close>: a fresh zeroed array.\<close>

definition make_bytes :: "nat \<Rightarrow> goslice" where
  "make_bytes count = Slice (replicate count 0) []"

text \<open>
  \<^verbatim>\<open>js.CopyBytesToGo(dst, src)\<close> copies \<open>min (len dst) (len src)\<close> bytes of the
  Uint8Array into the slice and returns that number; the builtin \<^verbatim>\<open>copy(dst, src)\<close>
  does the same between two Go slices. The destination of \<^verbatim>\<open>Read\<close> is the caller's
  slice, modelled by its elements.
\<close>

fun CopyBytesToGo :: "goslice \<Rightarrow> byte list \<Rightarrow> goslice \<times> nat" where
  "CopyBytesToGo NilSlice src = (NilSlice, 0)"
| "CopyBytesToGo (Slice l s) src =
     (let n = min (length l) (length src)
      in (Slice (take n src @ drop n l) s, n))"

definition copy :: "byte list \<Rightarrow> goslice \<Rightarrow> byte list \<times> nat" where
  "copy dst src =
     (let n = min (length dst) (slen src)
      in (take n (bytes_of src) @ drop n dst, n))"

subsection \<open>JavaScript values, errors and the struct\<close>

text \<open>
  The \<^verbatim>\<open>js.Value\<close> held in \<^verbatim>\<open>jsPromise\<close> is either the zero value (JavaScript's
  \<^verbatim>\<open>undefined\<close>) or a promise for an ArrayBuffer, and a promise is described by how
  it settles: with the bytes of a buffer, with an error object carrying a message, or
  never. An ArrayBuffer is the list of its bytes.
\<close>

datatype jsValue = Undefined | Fulfills "byte list" | Rejects string | NeverSettles

datatype error = EOF | JSError string

record arrayReader =
  jsPromise :: jsValue
  remaining :: goslice
  read :: bool
  err :: "error option"

text \<open>\<^verbatim>\<open>new(arrayReader)\<close>, the pool's \<^verbatim>\<open>New\<close>: every field has its zero value.\<close>

definition new_arrayReader :: arrayReader where
  "new_arrayReader = \<lparr>jsPromise = Undefined, remaining = NilSlice, read = False, err = None\<rparr>"

subsection \<open>fromArray, Reset, Close and the constructors\<close>

definition fromArray :: "arrayReader \<Rightarrow> byte list \<Rightarrow> goslice" where
  "fromArray ar arrayBuffer =
     (let count = length arrayBuffer;
          goBuf = (if count \<le> scap (remaining ar) then slice_to (remaining ar) count
                   else make_bytes count)
      in fst (CopyBytesToGo goBuf arrayBuffer))"

text \<open>
  \<^verbatim>\<open>socketStreamThresholdBytes\<close> is declared in another file of the package; it is the
  parameter \<open>bufMax\<close> of \<^verbatim>\<open>Reset\<close> and \<^verbatim>\<open>Close\<close>.
\<close>

definition Reset :: "int \<Rightarrow> arrayReader \<Rightarrow> arrayReader" where
  "Reset bufMax ar =
     (let ar1 = ar\<lparr>jsPromise := Undefined, read := False, err := None\<rparr>
      in if int (scap (remaining ar1)) < bufMax
         then ar1\<lparr>remaining := slice_to (remaining ar1) 0\<rparr>
         else ar1\<lparr>remaining := NilSlice\<rparr>)"

text \<open>
  \<^verbatim>\<open>Close\<close> resets the reader, puts it into \<^verbatim>\<open>arrayReaderPool\<close> and returns
  \<^verbatim>\<open>nil\<close>: the result is the instance handed to \<^verbatim>\<open>Put\<close> and the returned error.
\<close>

definition Close :: "int \<Rightarrow> arrayReader \<Rightarrow> arrayReader \<times> error option" where
  "Close bufMax ar = (Reset bufMax ar, None)"

text \<open>
  \<^verbatim>\<open>arrayReaderPool.Get()\<close> returns either \<^verbatim>\<open>new(arrayReader)\<close> or an instance that
  \<^verbatim>\<open>Close\<close> has put there; \<^verbatim>\<open>sync.Pool\<close> does not say which. The constructors take
  the instance that \<^verbatim>\<open>Get\<close> returned as their first argument, and \<open>pooled\<close> holds of
  the instances it can return.
\<close>

inductive pooled :: "int \<Rightarrow> arrayReader \<Rightarrow> bool" for bufMax :: int where
  pooled_New: "pooled bufMax new_arrayReader"
| pooled_Put: "pooled bufMax (fst (Close bufMax ar))"

definition newReaderArrayPromise :: "arrayReader \<Rightarrow> jsValue \<Rightarrow> arrayReader" where
  "newReaderArrayPromise got arrayPromise = got\<lparr>jsPromise := arrayPromise\<rparr>"

definition newReaderArrayBuffer :: "arrayReader \<Rightarrow> byte list \<Rightarrow> arrayReader \<times> nat" where
  "newReaderArrayBuffer got arrayBuffer =
     (let ar = got\<lparr>remaining := fromArray got arrayBuffer, read := True\<rparr>
      in (ar, slen (remaining ar)))"

subsection \<open>Read\<close>

text \<open>
  A call of \<^verbatim>\<open>Read\<close> returns \<^verbatim>\<open>(n, err)\<close>, or panics (calling \<^verbatim>\<open>then\<close> on
  \<^verbatim>\<open>undefined\<close>), or waits forever in the \<^verbatim>\<open>select\<close> (the promise never settles).
  Its result records that outcome, the caller's buffer after the call, the receiver
  after the call, and the promises on which the call invoked \<^verbatim>\<open>then\<close>.
\<close>

datatype outcome = Returns nat "error option" | Panics | Blocks

record read_result =
  outcome :: outcome
  buf_out :: "byte list"
  reader :: arrayReader
  then_calls :: "jsValue list"

text \<open>Lines 91 to 96: the part of \<^verbatim>\<open>Read\<close> after the promise has been dealt with.\<close>

definition Read_remaining :: "arrayReader \<Rightarrow> byte list \<Rightarrow> jsValue list \<Rightarrow> read_result" where
  "Read_remaining ar buf calls =
     (if slen (remaining ar) < 1
      then \<lparr>outcome = Returns 0 (Some EOF), buf_out = buf, reader = ar, then_calls = calls\<rparr>
      else (let (buf', n) = copy buf (remaining ar)
            in \<lparr>outcome = Returns n None, buf_out = buf',
                reader = ar\<lparr>remaining := slice_from (remaining ar) n\<rparr>,
                then_calls = calls\<rparr>))"

text \<open>
  In the \<^verbatim>\<open>select\<close>, the failure case binds the received error to a new local
  variable \<^verbatim>\<open>err\<close> and returns it: no field of the receiver is assigned there.
\<close>

definition Read :: "arrayReader \<Rightarrow> byte list \<Rightarrow> read_result" where
  "Read ar buf =
     (case err ar of
        Some e \<Rightarrow> \<lparr>outcome = Returns 0 (Some e), buf_out = buf, reader = ar, then_calls = []\<rparr>
      | None \<Rightarrow>
          if \<not> read ar then
            (let ar1 = ar\<lparr>read := True\<rparr>; calls = [jsPromise ar1]
             in case jsPromise ar1 of
                  Undefined \<Rightarrow>
                    \<lparr>outcome = Panics, buf_out = buf, reader = ar1, then_calls = calls\<rparr>
                | Fulfills arrayBuffer \<Rightarrow>
                    Read_remaining (ar1\<lparr>remaining := fromArray ar1 arrayBuffer\<rparr>) buf calls
                | Rejects message \<Rightarrow>
                    \<lparr>outcome = Returns 0 (Some (JSError message)), buf_out = buf,
                     reader = ar1, then_calls = calls\<rparr>
                | NeverSettles \<Rightarrow>
                    \<lparr>outcome = Blocks, buf_out = buf, reader = ar1, then_calls = calls\<rparr>)
          else Read_remaining ar buf [])"

text \<open>
  A caller's sequence of reads, one destination after the other on the same instance.
  The sequence ends with a call that does not return.
\<close>

fun reads :: "arrayReader \<Rightarrow> byte list list \<Rightarrow> read_result list" where
  "reads ar [] = []"
| "reads ar (buf # bufs) =
     (let r = Read ar buf
      in case outcome r of
           Returns n e \<Rightarrow> r # reads (reader r) bufs
         | Panics \<Rightarrow> [r]
         | Blocks \<Rightarrow> [r])"

subsection \<open>What a caller sees, and the read contract in the specification's words\<close>

text \<open>
  Of a call that returned, the caller sees the pair \<^verbatim>\<open>(n, err)\<close> and its own buffer.
  \<open>delivered\<close> collects the bytes handed over by the calls that returned \<^verbatim>\<open>(n, nil)\<close>,
  the first \<open>n\<close> bytes of each buffer, and \<open>total_ok\<close> adds up their byte counts.
\<close>

definition observe :: "read_result \<Rightarrow> outcome \<times> byte list" where
  "observe r = (outcome r, buf_out r)"

fun delivered :: "(outcome \<times> byte list) list \<Rightarrow> byte list" where
  "delivered [] = []"
| "delivered ((Returns n None, buf) # rs) = take n buf @ delivered rs"
| "delivered (r # rs) = delivered rs"

fun total_ok :: "(outcome \<times> byte list) list \<Rightarrow> nat" where
  "total_ok [] = 0"
| "total_ok ((Returns n None, buf) # rs) = n + total_ok rs"
| "total_ok (r # rs) = total_ok rs"

text \<open>
  The specification's read operation (section 4.3, steps 3 and 4) on a resolved reader,
  written over the plain sequence of bytes not yet delivered: an empty sequence answers
  end-of-data; otherwise the minimum of the two lengths is copied to the front of the
  destination and dropped from the sequence. The code is compared with it below.
\<close>

fun spec_reads :: "byte list \<Rightarrow> byte list list \<Rightarrow> (outcome \<times> byte list) list" where
  "spec_reads rem [] = []"
| "spec_reads rem (dst # dsts) =
     (if rem = [] then (Returns 0 (Some EOF), dst) # spec_reads rem dsts
      else (let n = min (length dst) (length rem)
            in (Returns n None, take n rem @ drop n dst) # spec_reads (drop n rem) dsts))"

text \<open>
  Two readers look the same to \<^verbatim>\<open>Read\<close> when they agree on everything but the cells
  of the backing array beyond the length of \<^verbatim>\<open>remaining\<close>.
\<close>

definition same_view :: "arrayReader \<Rightarrow> arrayReader \<Rightarrow> bool" where
  "same_view a b \<longleftrightarrow>
     jsPromise a = jsPromise b \<and> read a = read b \<and> err a = err b \<and>
     bytes_of (remaining a) = bytes_of (remaining b)"

text \<open>
  The states of an instance between a constructor and \<^verbatim>\<open>Close\<close>: what a constructor
  returns, and what any call of \<^verbatim>\<open>Read\<close> leaves behind.
\<close>

inductive acquired :: "int \<Rightarrow> arrayReader \<Rightarrow> bool" for bufMax :: int where
  acquired_promise: "pooled bufMax got \<Longrightarrow> acquired bufMax (newReaderArrayPromise got arrayPromise)"
| acquired_buffer: "pooled bufMax got \<Longrightarrow> acquired bufMax (fst (newReaderArrayBuffer got arrayBuffer))"
| acquired_Read: "acquired bufMax ar \<Longrightarrow> acquired bufMax (reader (Read ar buf))"

section \<open>Properties of the reader\<close>

subsection \<open>Slices and single calls\<close>

lemmas run_defs = Read_def Read_remaining_def copy_def fromArray_def make_bytes_def
  newReaderArrayBuffer_def newReaderArrayPromise_def new_arrayReader_def
  Reset_def Close_def slen_def scap_def Let_def

lemma bytes_of_slice_from: "bytes_of (slice_from g n) = drop n (bytes_of g)"
  by (cases g) simp_all

lemma slice_from_0: "slice_from g 0 = g"
  by (cases g) simp_all

text \<open>
  Whatever \<^verbatim>\<open>fromArray\<close> finds in the receiver's old slice, the slice it returns holds
  the bytes of the ArrayBuffer and nothing else.
\<close>

lemma bytes_of_fromArray: "bytes_of (fromArray ar src) = src"
  by (cases "remaining ar") (simp_all add: fromArray_def Let_def scap_def make_bytes_def)

lemma Read_remaining_simps:
  "outcome (Read_remaining ar buf calls) =
     (if slen (remaining ar) < 1 then Returns 0 (Some EOF)
      else Returns (min (length buf) (slen (remaining ar))) None)"
  "buf_out (Read_remaining ar buf calls) =
     (if slen (remaining ar) < 1 then buf
      else take (min (length buf) (slen (remaining ar))) (bytes_of (remaining ar))
             @ drop (min (length buf) (slen (remaining ar))) buf)"
  "reader (Read_remaining ar buf calls) =
     (if slen (remaining ar) < 1 then ar
      else ar\<lparr>remaining := slice_from (remaining ar) (min (length buf) (slen (remaining ar)))\<rparr>)"
  "then_calls (Read_remaining ar buf calls) = calls"
  by (simp_all add: Read_remaining_def copy_def Let_def)

lemma Read_remaining_empty:
  "slen (remaining ar) = 0 \<Longrightarrow>
   Read_remaining ar buf calls =
     \<lparr>outcome = Returns 0 (Some EOF), buf_out = buf, reader = ar, then_calls = calls\<rparr>"
  by (simp add: Read_remaining_def)

lemma Read_failed:
  "err ar = Some e \<Longrightarrow>
   Read ar buf = \<lparr>outcome = Returns 0 (Some e), buf_out = buf, reader = ar, then_calls = []\<rparr>"
  by (simp add: Read_def)

lemma Read_resolved:
  "err ar = None \<Longrightarrow> read ar \<Longrightarrow> Read ar buf = Read_remaining ar buf []"
  by (simp add: Read_def)

lemma Read_unresolved:
  "err ar = None \<Longrightarrow> \<not> read ar \<Longrightarrow>
   Read ar buf =
     (case jsPromise ar of
        Undefined \<Rightarrow>
          \<lparr>outcome = Panics, buf_out = buf, reader = ar\<lparr>read := True\<rparr>,
             then_calls = [Undefined]\<rparr>
      | Fulfills src \<Rightarrow>
          Read_remaining (ar\<lparr>read := True, remaining := fromArray ar src\<rparr>) buf [Fulfills src]
      | Rejects m \<Rightarrow>
          \<lparr>outcome = Returns 0 (Some (JSError m)), buf_out = buf, reader = ar\<lparr>read := True\<rparr>,
             then_calls = [Rejects m]\<rparr>
      | NeverSettles \<Rightarrow>
          \<lparr>outcome = Blocks, buf_out = buf, reader = ar\<lparr>read := True\<rparr>,
             then_calls = [NeverSettles]\<rparr>)"
  by (simp add: Read_def Let_def fromArray_def split: jsValue.splits)

lemma Read_streaming:
  assumes "read a" "err a = None" "0 < slen (remaining a)"
  shows "Read a d =
     \<lparr>outcome = Returns (min (length d) (slen (remaining a))) None,
        buf_out = take (min (length d) (slen (remaining a))) (bytes_of (remaining a))
                    @ drop (min (length d) (slen (remaining a))) d,
        reader = a\<lparr>remaining := slice_from (remaining a) (min (length d) (slen (remaining a)))\<rparr>,
        then_calls = []\<rparr>"
  using assms by (simp add: Read_resolved Read_remaining_def copy_def Let_def)

lemma Read_after_EOF:
  assumes "err a = Some EOF \<or> (err a = None \<and> read a \<and> slen (remaining a) = 0)"
  shows "Read a b = \<lparr>outcome = Returns 0 (Some EOF), buf_out = b, reader = a, then_calls = []\<rparr>"
  using assms by (auto simp add: Read_failed Read_resolved Read_remaining_empty)

lemma Read_EOF_state:
  assumes "outcome (Read ar buf) = Returns n (Some EOF)"
  shows "n = 0 \<and> (err (reader (Read ar buf)) = Some EOF \<or>
     (err (reader (Read ar buf)) = None \<and> read (reader (Read ar buf)) \<and>
      slen (remaining (reader (Read ar buf))) = 0))"
  using assms
  by (cases "err ar"; cases "read ar"; cases "jsPromise ar")
     (simp_all add: Read_failed Read_resolved Read_unresolved Read_remaining_simps
        split: if_splits)

text \<open>After any call, the promise has been dealt with or a failure is set.\<close>

lemma Read_settled:
  "read (reader (Read a b)) \<or> err (reader (Read a b)) \<noteq> None"
  by (cases "err a"; cases "read a"; cases "jsPromise a")
     (simp_all add: Read_failed Read_resolved Read_unresolved Read_remaining_simps)

lemma Read_then_calls:
  "then_calls (Read a b) = (if err a = None \<and> \<not> read a then [jsPromise a] else [])"
  by (cases "err a"; cases "read a"; cases "jsPromise a")
     (simp_all add: Read_failed Read_resolved Read_unresolved Read_remaining_simps)

subsection \<open>The pool and the states of an acquired instance\<close>

lemma Reset_fields:
  "jsPromise (Reset bufMax ar) = Undefined"
  "read (Reset bufMax ar) = False"
  "err (Reset bufMax ar) = None"
  "bytes_of (remaining (Reset bufMax ar)) = []"
  by (cases "remaining ar"; simp add: Reset_def Let_def)+

lemma pooled_fields:
  assumes "pooled bufMax got"
  shows "jsPromise got = Undefined" "\<not> read got" "err got = None"
    "bytes_of (remaining got) = []"
  using assms by (auto elim!: pooled.cases simp add: Close_def Reset_fields new_arrayReader_def)

text \<open>
  No statement of the file assigns a non-nil value to \<^verbatim>\<open>ar.err\<close>, and only a resolved
  reader has bytes in \<^verbatim>\<open>remaining\<close>.
\<close>

lemma acquired_invariant:
  assumes "acquired bufMax ar"
  shows "err ar = None \<and> (read ar \<or> bytes_of (remaining ar) = [])"
  using assms
proof (induction rule: acquired.induct)
  case (acquired_promise got arrayPromise)
  then show ?case
    using pooled_fields [of bufMax got] by (simp add: newReaderArrayPromise_def)
next
  case (acquired_buffer got arrayBuffer)
  then show ?case
    using pooled_fields [of bufMax got] by (simp add: newReaderArrayBuffer_def Let_def)
next
  case (acquired_Read ar buf)
  then have e: "err ar = None" by simp
  show ?case
    by (cases "read ar"; cases "jsPromise ar")
       (simp_all add: e Read_resolved Read_unresolved Read_remaining_simps)
qed

subsection \<open>Sequences of reads\<close>

lemma reads_Cons_returns:
  assumes "outcome (Read a d) = Returns n e"
  shows "reads a (d # ds) = Read a d # reads (reader (Read a d)) ds"
  using assms by (simp add: Let_def)

lemma reads_after_EOF:
  assumes "err a = Some EOF \<or> (err a = None \<and> read a \<and> slen (remaining a) = 0)"
  shows "reads a bufs =
     map (\<lambda>b. \<lparr>outcome = Returns 0 (Some EOF), buf_out = b, reader = a, then_calls = []\<rparr>) bufs"
  by (induction bufs) (simp_all add: Read_after_EOF [OF assms])

lemma reads_no_then:
  assumes "read a \<or> err a \<noteq> None"
  shows "concat (map then_calls (reads a bufs)) = []"
  using assms
proof (induction bufs arbitrary: a)
  case Nil
  then show ?case by simp
next
  case (Cons b bufs)
  have "concat (map then_calls (reads (reader (Read a b)) bufs)) = []"
    by (rule Cons.IH) (rule Read_settled)
  moreover have "then_calls (Read a b) = []"
    using Cons.prems by (auto simp add: Read_then_calls)
  ultimately show ?case
    by (simp add: Let_def split: outcome.splits)
qed

lemma reads_then_calls:
  "concat (map then_calls (reads a (b # bufs))) = then_calls (Read a b)"
  using reads_no_then [OF Read_settled, of a b bufs]
  by (simp add: Let_def split: outcome.splits)

text \<open>A resolved reader without a failure behaves as the specification's read operation.\<close>

lemma reads_resolved:
  assumes "read a" "err a = None"
  shows "map observe (reads a dsts) = spec_reads (bytes_of (remaining a)) dsts"
  using assms
proof (induction dsts arbitrary: a)
  case Nil
  then show ?case by simp
next
  case (Cons d dsts)
  let ?r = "Read a d"
  let ?n = "min (length d) (length (bytes_of (remaining a)))"
  have r: "?r = Read_remaining a d []"
    using Cons.prems by (simp add: Read_resolved)
  show ?case
  proof (cases "bytes_of (remaining a) = []")
    case True
    then have o: "outcome ?r = Returns 0 (Some EOF)" and b: "buf_out ?r = d"
      and a': "reader ?r = a"
      using r by (simp_all add: Read_remaining_simps slen_def)
    have "map observe (reads a (d # dsts)) = (Returns 0 (Some EOF), d) # map observe (reads a dsts)"
      by (simp only: reads_Cons_returns [OF o] list.map) (simp add: observe_def o b a')
    also have "\<dots> = (Returns 0 (Some EOF), d) # spec_reads (bytes_of (remaining a)) dsts"
      by (simp only: Cons.IH [OF Cons.prems])
    finally show ?thesis using True by simp
  next
    case False
    then have o: "outcome ?r = Returns ?n None"
      and b: "buf_out ?r = take ?n (bytes_of (remaining a)) @ drop ?n d"
      and a': "reader ?r = a\<lparr>remaining := slice_from (remaining a) ?n\<rparr>"
      using r by (simp_all add: Read_remaining_simps slen_def)
    have tl: "map observe (reads (reader ?r) dsts)
        = spec_reads (drop ?n (bytes_of (remaining a))) dsts"
      using Cons.IH [of "reader ?r"] Cons.prems a' by (simp add: bytes_of_slice_from)
    have "map observe (reads a (d # dsts)) = observe ?r # map observe (reads (reader ?r) dsts)"
      by (simp only: reads_Cons_returns [OF o] list.map)
    also have "\<dots> = (Returns ?n None, take ?n (bytes_of (remaining a)) @ drop ?n d)
        # spec_reads (drop ?n (bytes_of (remaining a))) dsts"
      by (simp only: tl) (simp add: observe_def o b)
    finally show ?thesis using False by (simp add: Let_def)
  qed
qed

lemma reads_first_agree:
  assumes "observe (Read a d) = observe (Read b d)" "reader (Read a d) = reader (Read b d)"
  shows "map observe (reads a (d # ds)) = map observe (reads b (d # ds))"
  using assms by (simp add: observe_def Let_def split: outcome.splits)

text \<open>So does a reader whose promise is fulfilled, from its first read on.\<close>

lemma reads_fulfilled:
  assumes "\<not> read a" "err a = None" "jsPromise a = Fulfills src"
  shows "map observe (reads a dsts) = spec_reads src dsts"
proof (cases dsts)
  case Nil
  then show ?thesis by simp
next
  case (Cons d ds)
  let ?b = "a\<lparr>read := True, remaining := fromArray a src\<rparr>"
  have "Read a d = Read_remaining ?b d [Fulfills src]"
    using assms by (simp add: Read_unresolved)
  moreover have "Read ?b d = Read_remaining ?b d []"
    using assms by (simp add: Read_resolved)
  ultimately have "map observe (reads a (d # ds)) = map observe (reads ?b (d # ds))"
    by (intro reads_first_agree) (simp_all add: observe_def Read_remaining_simps)
  also have "\<dots> = spec_reads (bytes_of (remaining ?b)) (d # ds)"
    using assms by (intro reads_resolved) simp_all
  finally show ?thesis
    using Cons by (simp add: bytes_of_fromArray)
qed

subsection \<open>The specification's read operation\<close>

lemma length_spec_reads: "length (spec_reads rem dsts) = length dsts"
  by (induction dsts arbitrary: rem) (simp_all add: Let_def)

lemma delivered_spec_empty: "delivered (spec_reads [] dsts) = []"
  by (induction dsts) simp_all

lemma delivered_spec_reads:
  "delivered (spec_reads rem dsts) = take (sum_list (map length dsts)) rem"
proof (induction dsts arbitrary: rem)
  case Nil
  then show ?case by simp
next
  case (Cons d dsts)
  show ?case
  proof (cases "rem = []")
    case True
    then show ?thesis by (simp add: delivered_spec_empty)
  next
    case False
    let ?n = "min (length d) (length rem)"
    have "delivered (spec_reads rem (d # dsts))
        = take ?n rem @ delivered (spec_reads (drop ?n rem) dsts)"
      using False by (simp add: Let_def)
    also have "\<dots> = take ?n rem @ take (sum_list (map length dsts)) (drop ?n rem)"
      by (simp only: Cons.IH)
    also have "\<dots> = take (?n + sum_list (map length dsts)) rem"
      by (simp only: take_add)
    also have "\<dots> = take (length d + sum_list (map length dsts)) rem"
      by (cases "length d \<le> length rem") (simp_all add: min_def)
    finally show ?thesis by simp
  qed
qed

lemma total_ok_spec_reads:
  "total_ok (spec_reads rem dsts) = min (sum_list (map length dsts)) (length rem)"
proof (induction dsts arbitrary: rem)
  case Nil
  then show ?case by simp
next
  case (Cons d dsts)
  show ?case
  proof (cases "rem = []")
    case True
    then show ?thesis using Cons.IH [of "[]"] by simp
  next
    case False
    let ?n = "min (length d) (length rem)"
    let ?s = "sum_list (map length dsts)"
    have "total_ok (spec_reads rem (d # dsts)) = ?n + total_ok (spec_reads (drop ?n rem) dsts)"
      using False by (simp add: Let_def)
    also have "\<dots> = ?n + min ?s (length rem - ?n)"
      by (simp only: Cons.IH length_drop)
    also have "\<dots> = min (length d + ?s) (length rem)"
      by arith
    finally show ?thesis by simp
  qed
qed

lemma spec_reads_append:
  "spec_reads rem (dsts @ [buf]) =
     spec_reads rem dsts @ spec_reads (drop (sum_list (map length dsts)) rem) [buf]"
proof (induction dsts arbitrary: rem)
  case Nil
  then show ?case by simp
next
  case (Cons d dsts)
  show ?case
  proof (cases "rem = []")
    case True
    then show ?thesis using Cons.IH [of "[]"] by simp
  next
    case False
    let ?n = "min (length d) (length rem)"
    have "drop (sum_list (map length dsts)) (drop ?n rem)
        = drop (length d + sum_list (map length dsts)) rem"
      by (cases "length d \<le> length rem") (simp_all add: min_def add.commute)
    then show ?thesis
      using False Cons.IH [of "drop ?n rem"] by (simp add: Let_def)
  qed
qed

subsection \<open>Readers that look the same read the same\<close>

lemma Read_same_view:
  assumes "same_view a b"
  shows "observe (Read a buf) = observe (Read b buf) \<and>
         same_view (reader (Read a buf)) (reader (Read b buf))"
proof -
  from assms have p: "jsPromise b = jsPromise a" and r: "read b = read a"
    and e: "err b = err a" and m: "bytes_of (remaining b) = bytes_of (remaining a)"
    by (simp_all add: same_view_def)
  show ?thesis
    by (cases "err a"; cases "read a"; cases "jsPromise a")
       (simp_all add: p r e m Read_failed Read_resolved Read_unresolved Read_remaining_simps
          observe_def same_view_def slen_def bytes_of_slice_from bytes_of_fromArray)
qed

lemma reads_same_view:
  assumes "same_view a b"
  shows "map observe (reads a bufs) = map observe (reads b bufs)"
  using assms
proof (induction bufs arbitrary: a b)
  case Nil
  then show ?case by simp
next
  case (Cons d bufs)
  from Read_same_view [OF Cons.prems, of d]
  have o: "observe (Read a d) = observe (Read b d)"
    and v: "same_view (reader (Read a d)) (reader (Read b d))"
    by simp_all
  from o have oc: "outcome (Read a d) = outcome (Read b d)"
    by (simp add: observe_def)
  show ?case
  proof (cases "outcome (Read a d)")
    case (Returns n e)
    then have "outcome (Read b d) = Returns n e" using oc by simp
    from reads_Cons_returns [OF Returns] reads_Cons_returns [OF this] o Cons.IH [OF v]
    show ?thesis by simp
  next
    case Panics
    then show ?thesis using oc o by (simp add: Let_def)
  next
    case Blocks
    then show ?thesis using oc o by (simp add: Let_def)
  qed
qed

section \<open>The claims\<close>

text \<open>
  Claim C1. Let a reader be configured on a pooled instance with a resolved buffer
  \<open>src\<close>, or with a promise that is fulfilled with \<open>src\<close>, and let it be read
  into destinations whose lengths add up to at least \<open>length src\<close>. Then every call
  returns, the calls behave as the specification's read operation on \<open>src\<close>, the byte
  counts of the ok results add up to \<open>length src\<close>, the bytes handed over are \<open>src\<close>
  in order, and one more read returns \<^verbatim>\<open>(0, io.EOF)\<close> and leaves its destination as
  it was. Each single read of a resolved reader with bytes left returns the minimum \<open>n\<close>
  of the two lengths, writes the first \<open>n\<close> remaining bytes to the front of the
  destination, and advances \<^verbatim>\<open>remaining\<close> by \<open>n\<close>.
\<close>

theorem reads_deliver_source_in_order:
  assumes "pooled bufMax got"
    and "ar = fst (newReaderArrayBuffer got src) \<or> ar = newReaderArrayPromise got (Fulfills src)"
    and "length src \<le> sum_list (map length dsts)"
  shows "map observe (reads ar dsts) = spec_reads src dsts \<and>
         length (reads ar dsts) = length dsts \<and>
         total_ok (map observe (reads ar dsts)) = length src \<and>
         delivered (map observe (reads ar dsts)) = src \<and>
         observe (last (reads ar (dsts @ [buf]))) = (Returns 0 (Some EOF), buf) \<and>
         (read a \<and> err a = None \<and> 0 < slen (remaining a) \<longrightarrow>
            outcome (Read a d) = Returns (min (length d) (slen (remaining a))) None \<and>
            take (min (length d) (slen (remaining a))) (buf_out (Read a d)) =
              take (min (length d) (slen (remaining a))) (bytes_of (remaining a)) \<and>
            remaining (reader (Read a d)) =
              slice_from (remaining a) (min (length d) (slen (remaining a))) \<and>
            bytes_of (remaining (reader (Read a d))) =
              drop (min (length d) (slen (remaining a))) (bytes_of (remaining a)))"
proof -
  have run: "map observe (reads ar ds) = spec_reads src ds" for ds
    using assms(2)
  proof
    assume "ar = fst (newReaderArrayBuffer got src)"
    then have "read ar" "err ar = None" "bytes_of (remaining ar) = src"
      using pooled_fields [OF assms(1)]
      by (simp_all add: newReaderArrayBuffer_def Let_def bytes_of_fromArray)
    then show ?thesis using reads_resolved [of ar ds] by simp
  next
    assume "ar = newReaderArrayPromise got (Fulfills src)"
    then have "\<not> read ar" "err ar = None" "jsPromise ar = Fulfills src"
      using pooled_fields [OF assms(1)] by (simp_all add: newReaderArrayPromise_def)
    then show ?thesis by (rule reads_fulfilled)
  qed
  have len: "length (reads ar dsts) = length dsts"
    using arg_cong [OF run [of dsts], of length] by (simp add: length_spec_reads)
  have tot: "total_ok (map observe (reads ar dsts)) = length src"
    using assms(3) by (simp add: run total_ok_spec_reads)
  have del: "delivered (map observe (reads ar dsts)) = src"
    using assms(3) by (simp add: run delivered_spec_reads)
  have "reads ar (dsts @ [buf]) \<noteq> []"
    using arg_cong [OF run [of "dsts @ [buf]"], of length] by (auto simp add: length_spec_reads)
  then have "observe (last (reads ar (dsts @ [buf]))) = last (map observe (reads ar (dsts @ [buf])))"
    by (simp add: last_map)
  also have "\<dots> = last (spec_reads src (dsts @ [buf]))"
    by (simp only: run)
  also have "\<dots> = (Returns 0 (Some EOF), buf)"
    using assms(3) by (simp add: spec_reads_append)
  finally have eof: "observe (last (reads ar (dsts @ [buf]))) = (Returns 0 (Some EOF), buf)" .
  have step: "outcome (Read a d) = Returns (min (length d) (slen (remaining a))) None \<and>
            take (min (length d) (slen (remaining a))) (buf_out (Read a d)) =
              take (min (length d) (slen (remaining a))) (bytes_of (remaining a)) \<and>
            remaining (reader (Read a d)) =
              slice_from (remaining a) (min (length d) (slen (remaining a))) \<and>
            bytes_of (remaining (reader (Read a d))) =
              drop (min (length d) (slen (remaining a))) (bytes_of (remaining a))"
    if "read a \<and> err a = None \<and> 0 < slen (remaining a)"
    using that by (simp add: Read_streaming bytes_of_slice_from) (simp add: slen_def)
  from run [of dsts] len tot del eof step show ?thesis by blast
qed

text \<open>
  The scenario of the specification: a promise fulfilled with the bytes 0 to 9, read into
  a destination of 4 bytes and then into one of 10.
\<close>

theorem reads_deliver_source_in_order_witness:
  "pooled 1024 new_arrayReader \<and>
   length [0, 1, 2, 3, 4, 5, 6, 7, 8, 9 :: byte]
     \<le> sum_list (map length [[0, 0, 0, 0], [0, 0, 0, 0, 0, 0, 0, 0, 0, 0 :: byte]]) \<and>
   map observe (reads (newReaderArrayPromise new_arrayReader (Fulfills [0, 1, 2, 3, 4, 5, 6, 7, 8, 9]))
       [[0, 0, 0, 0], [0, 0, 0, 0, 0, 0, 0, 0, 0, 0]]) =
     [(Returns 4 None, [0, 1, 2, 3]), (Returns 6 None, [4, 5, 6, 7, 8, 9, 0, 0, 0, 0])] \<and>
   total_ok (map observe (reads (newReaderArrayPromise new_arrayReader (Fulfills [0, 1, 2, 3, 4, 5, 6, 7, 8, 9]))
       [[0, 0, 0, 0], [0, 0, 0, 0, 0, 0, 0, 0, 0, 0]])) = 10 \<and>
   delivered (map observe (reads (newReaderArrayPromise new_arrayReader (Fulfills [0, 1, 2, 3, 4, 5, 6, 7, 8, 9]))
       [[0, 0, 0, 0], [0, 0, 0, 0, 0, 0, 0, 0, 0, 0]])) = [0, 1, 2, 3, 4, 5, 6, 7, 8, 9] \<and>
   observe (last (reads (newReaderArrayPromise new_arrayReader (Fulfills [0, 1, 2, 3, 4, 5, 6, 7, 8, 9]))
       ([[0, 0, 0, 0], [0, 0, 0, 0, 0, 0, 0, 0, 0, 0]] @ [[7, 7]]))) = (Returns 0 (Some EOF), [7, 7]) \<and>
   read (fst (newReaderArrayBuffer new_arrayReader [1, 2, 3])) \<and>
   err (fst (newReaderArrayBuffer new_arrayReader [1, 2, 3])) = None \<and>
   0 < slen (remaining (fst (newReaderArrayBuffer new_arrayReader [1, 2, 3]))) \<and>
   outcome (Read (fst (newReaderArrayBuffer new_arrayReader [1, 2, 3])) [0, 0]) = Returns 2 None \<and>
   bytes_of (remaining (reader (Read (fst (newReaderArrayBuffer new_arrayReader [1, 2, 3])) [0, 0]))) = [3]"
proof -
  have s: "read (fst (newReaderArrayBuffer new_arrayReader [1, 2, 3]))"
    "err (fst (newReaderArrayBuffer new_arrayReader [1, 2, 3])) = None"
    "slen (remaining (fst (newReaderArrayBuffer new_arrayReader [1, 2, 3]))) = 3"
    "bytes_of (remaining (fst (newReaderArrayBuffer new_arrayReader [1, 2, 3]))) = [1, 2, 3]"
    by (simp_all add: run_defs)
  show ?thesis
    using reads_deliver_source_in_order [where bufMax = 1024 and got = new_arrayReader
        and src = "[0, 1, 2, 3, 4, 5, 6, 7, 8, 9]"
        and ar = "newReaderArrayPromise new_arrayReader (Fulfills [0, 1, 2, 3, 4, 5, 6, 7, 8, 9])"
        and dsts = "[[0, 0, 0, 0], [0, 0, 0, 0, 0, 0, 0, 0, 0, 0]]" and buf = "[7, 7]"
        and a = "fst (newReaderArrayBuffer new_arrayReader [1, 2, 3])" and d = "[0, 0]"]
      pooled_New [of 1024] s
    by (simp del: reads.simps add: Let_def bytes_of_slice_from)
qed

text \<open>
  Claim C2 says that a rejection seen by a read is stored in the failure field and that
  every later read returns that same failure. The code does not do this. On a fresh
  instance configured with a promise that rejects with the message "network error", the
  first read returns \<^verbatim>\<open>(0, error "network error")\<close>, the field \<^verbatim>\<open>err\<close> of the
  receiver is still \<^verbatim>\<open>nil\<close> afterwards, and the second read returns
  \<^verbatim>\<open>(0, io.EOF)\<close>.
\<close>

theorem rejection_is_not_stored:
  "outcome (Read (newReaderArrayPromise new_arrayReader (Rejects ''network error'')) [0, 0, 0, 0])
     = Returns 0 (Some (JSError ''network error'')) \<and>
   err (reader (Read (newReaderArrayPromise new_arrayReader (Rejects ''network error'')) [0, 0, 0, 0]))
     = None \<and>
   outcome (Read (reader (Read (newReaderArrayPromise new_arrayReader (Rejects ''network error''))
                           [0, 0, 0, 0])) [0, 0, 0, 0])
     = Returns 0 (Some EOF)"
  by (simp add: run_defs)

text \<open>
  Claim C3. In any sequence of reads on one instance, \<^verbatim>\<open>then\<close> is called on the
  promise at most once, whatever the state of the instance and however the promise
  settles; on a reader configured from a promise \<open>p\<close>, a sequence of at least one read
  calls it exactly once, on \<open>p\<close>.
\<close>

theorem resolution_at_most_once:
  "length (concat (map then_calls (reads ar bufs))) \<le> 1 \<and>
   (pooled bufMax got \<longrightarrow>
      concat (map then_calls (reads (newReaderArrayPromise got p) (buf # bufs))) = [p])"
proof
  show "length (concat (map then_calls (reads ar bufs))) \<le> 1"
  proof (cases bufs)
    case Nil
    then show ?thesis by simp
  next
    case (Cons b bs)
    then show ?thesis by (simp only: reads_then_calls Read_then_calls) simp
  qed
next
  show "pooled bufMax got \<longrightarrow>
      concat (map then_calls (reads (newReaderArrayPromise got p) (buf # bufs))) = [p]"
  proof
    assume "pooled bufMax got"
    from pooled_fields [OF this]
    show "concat (map then_calls (reads (newReaderArrayPromise got p) (buf # bufs))) = [p]"
      by (simp only: reads_then_calls Read_then_calls) (simp add: newReaderArrayPromise_def)
  qed
qed

theorem resolution_at_most_once_witness:
  "length (concat (map then_calls
      (reads (newReaderArrayPromise new_arrayReader (Rejects ''gone'')) [[0], [0], [0]]))) \<le> 1 \<and>
   pooled 1024 new_arrayReader \<and>
   concat (map then_calls
      (reads (newReaderArrayPromise new_arrayReader (Rejects ''gone'')) [[0], [0], [0]]))
     = [Rejects ''gone'']"
  using resolution_at_most_once [where ar = "newReaderArrayPromise new_arrayReader (Rejects ''gone'')"
      and bufs = "[[0], [0]]" and buf = "[0]" and bufMax = 1024 and got = new_arrayReader
      and p = "Rejects ''gone''"]
    pooled_New [of 1024]
  by simp

text \<open>
  Claim C4. Let an instance in any state \<open>old\<close> be closed, taken from the pool again
  and configured with a buffer or with a promise. Then what its reads return and write
  to their destinations is what a freshly allocated instance, configured the same way,
  would return and write: nothing of \<open>old\<close> shows. The bytes handed over are a prefix
  of the newly configured buffer, as long as the destinations allow.
\<close>

theorem reacquired_reads_as_fresh:
  "map observe (reads (fst (newReaderArrayBuffer (fst (Close bufMax old)) src)) dsts) =
     map observe (reads (fst (newReaderArrayBuffer new_arrayReader src)) dsts) \<and>
   map observe (reads (newReaderArrayPromise (fst (Close bufMax old)) p) dsts) =
     map observe (reads (newReaderArrayPromise new_arrayReader p) dsts) \<and>
   delivered (map observe (reads (fst (newReaderArrayBuffer (fst (Close bufMax old)) src)) dsts)) =
     take (sum_list (map length dsts)) src \<and>
   delivered (map observe (reads (newReaderArrayPromise (fst (Close bufMax old)) (Fulfills src)) dsts)) =
     take (sum_list (map length dsts)) src"
proof -
  let ?got = "fst (Close bufMax old)"
  have got: "pooled bufMax ?got" by (rule pooled_Put)
  note f = pooled_fields [OF got]
  have "same_view (fst (newReaderArrayBuffer ?got src)) (fst (newReaderArrayBuffer new_arrayReader src))"
    using f
    by (simp add: same_view_def newReaderArrayBuffer_def Let_def bytes_of_fromArray
        new_arrayReader_def)
  then have 1: "map observe (reads (fst (newReaderArrayBuffer ?got src)) dsts) =
     map observe (reads (fst (newReaderArrayBuffer new_arrayReader src)) dsts)"
    by (rule reads_same_view)
  have "same_view (newReaderArrayPromise ?got p) (newReaderArrayPromise new_arrayReader p)"
    using f by (simp add: same_view_def newReaderArrayPromise_def new_arrayReader_def)
  then have 2: "map observe (reads (newReaderArrayPromise ?got p) dsts) =
     map observe (reads (newReaderArrayPromise new_arrayReader p) dsts)"
    by (rule reads_same_view)
  have "read (fst (newReaderArrayBuffer ?got src))"
    "err (fst (newReaderArrayBuffer ?got src)) = None"
    "bytes_of (remaining (fst (newReaderArrayBuffer ?got src))) = src"
    using f by (simp_all add: newReaderArrayBuffer_def Let_def bytes_of_fromArray)
  then have 3: "delivered (map observe (reads (fst (newReaderArrayBuffer ?got src)) dsts)) =
     take (sum_list (map length dsts)) src"
    using reads_resolved [of "fst (newReaderArrayBuffer ?got src)" dsts]
    by (simp add: delivered_spec_reads)
  have "\<not> read (newReaderArrayPromise ?got (Fulfills src))"
    "err (newReaderArrayPromise ?got (Fulfills src)) = None"
    "jsPromise (newReaderArrayPromise ?got (Fulfills src)) = Fulfills src"
    using f by (simp_all add: newReaderArrayPromise_def)
  then have 4: "delivered (map observe (reads (newReaderArrayPromise ?got (Fulfills src)) dsts)) =
     take (sum_list (map length dsts)) src"
    using reads_fulfilled [of "newReaderArrayPromise ?got (Fulfills src)" src dsts]
    by (simp add: delivered_spec_reads)
  from 1 2 3 4 show ?thesis by simp
qed

text \<open>
  Claim C5. \<^verbatim>\<open>Close\<close> returns \<^verbatim>\<open>nil\<close> and puts into the pool the instance as
  \<^verbatim>\<open>Reset\<close> leaves it: the promise handle, the flag \<^verbatim>\<open>read\<close> and the field
  \<^verbatim>\<open>err\<close> are cleared; when the capacity of \<^verbatim>\<open>remaining\<close> is below the threshold
  the slice is cut to length zero over the same cells, and otherwise it is \<^verbatim>\<open>nil\<close>.
\<close>

theorem Close_resets_instance:
  "snd (Close bufMax ar) = None \<and> fst (Close bufMax ar) = Reset bufMax ar \<and>
   jsPromise (fst (Close bufMax ar)) = Undefined \<and>
   \<not> read (fst (Close bufMax ar)) \<and>
   err (fst (Close bufMax ar)) = None \<and>
   (int (scap (remaining ar)) < bufMax \<longrightarrow>
      slen (remaining (fst (Close bufMax ar))) = 0 \<and>
      scap (remaining (fst (Close bufMax ar))) = scap (remaining ar) \<and>
      cells_of (remaining (fst (Close bufMax ar))) = cells_of (remaining ar)) \<and>
   (\<not> int (scap (remaining ar)) < bufMax \<longrightarrow> remaining (fst (Close bufMax ar)) = NilSlice)"
  by (cases "remaining ar") (simp_all add: Close_def Reset_def Let_def slen_def scap_def)

text \<open>
  A reader of the buffer 1, 2, 3 that has delivered one byte holds a slice of capacity 2:
  a threshold of 1024 keeps its cells, a threshold of 2 drops them.
\<close>

theorem Close_resets_instance_witness:
  "int (scap (remaining (reader (Read (fst (newReaderArrayBuffer new_arrayReader [1, 2, 3])) [0]))))
     < 1024 \<and>
   remaining (fst (Close 1024 (reader (Read (fst (newReaderArrayBuffer new_arrayReader [1, 2, 3])) [0]))))
     = Slice [] [2, 3] \<and>
   \<not> int (scap (remaining (reader (Read (fst (newReaderArrayBuffer new_arrayReader [1, 2, 3])) [0]))))
     < 2 \<and>
   remaining (fst (Close 2 (reader (Read (fst (newReaderArrayBuffer new_arrayReader [1, 2, 3])) [0]))))
     = NilSlice"
proof -
  have s: "remaining (reader (Read (fst (newReaderArrayBuffer new_arrayReader [1, 2, 3])) [0]))
      = Slice [2, 3] []"
    by (simp add: run_defs)
  show ?thesis
    using Close_resets_instance
        [of 1024 "reader (Read (fst (newReaderArrayBuffer new_arrayReader [1, 2, 3])) [0])"]
      Close_resets_instance
        [of 2 "reader (Read (fst (newReaderArrayBuffer new_arrayReader [1, 2, 3])) [0])"]
    by (simp add: s Close_def Reset_def Let_def scap_def)
qed

text \<open>
  Claim C6. When a read has returned \<^verbatim>\<open>(0, io.EOF)\<close>, every further read on the
  instance returns \<^verbatim>\<open>(0, io.EOF)\<close> as well, leaves its destination and the instance
  as they were, and does not call \<^verbatim>\<open>then\<close>. (A read that returns \<^verbatim>\<open>io.EOF\<close>
  returns it with the byte count 0.)
\<close>

theorem EOF_repeats:
  assumes "outcome (Read ar buf) = Returns n (Some EOF)"
  shows "n = 0 \<and> reads (reader (Read ar buf)) bufs =
     map (\<lambda>b. \<lparr>outcome = Returns 0 (Some EOF), buf_out = b,
                reader = reader (Read ar buf), then_calls = []\<rparr>) bufs"
  using Read_EOF_state [OF assms] reads_after_EOF [of "reader (Read ar buf)" bufs] by blast

theorem EOF_repeats_witness:
  "outcome (Read (fst (newReaderArrayBuffer new_arrayReader [])) [7, 7]) = Returns 0 (Some EOF) \<and>
   reads (reader (Read (fst (newReaderArrayBuffer new_arrayReader [])) [7, 7])) [[1], []] =
     [\<lparr>outcome = Returns 0 (Some EOF), buf_out = [1],
        reader = reader (Read (fst (newReaderArrayBuffer new_arrayReader [])) [7, 7]),
        then_calls = []\<rparr>,
      \<lparr>outcome = Returns 0 (Some EOF), buf_out = [],
        reader = reader (Read (fst (newReaderArrayBuffer new_arrayReader [])) [7, 7]),
        then_calls = []\<rparr>]"
proof -
  have h: "outcome (Read (fst (newReaderArrayBuffer new_arrayReader [])) [7, 7])
      = Returns 0 (Some EOF)"
    by (simp add: run_defs)
  show ?thesis using h EOF_repeats [OF h, of "[[1], []]"] by simp
qed

text \<open>
  Claim C7. A read that returns the error of a rejected promise leaves \<^verbatim>\<open>remaining\<close>
  as it was, cells of the backing array included; it returns the byte count 0 and does
  not write to its destination.
\<close>

theorem rejection_leaves_remaining:
  assumes "outcome (Read ar buf) = Returns n (Some (JSError m))"
  shows "n = 0 \<and> remaining (reader (Read ar buf)) = remaining ar \<and> buf_out (Read ar buf) = buf"
  using assms
  by (cases "err ar"; cases "read ar"; cases "jsPromise ar")
     (simp_all add: Read_failed Read_resolved Read_unresolved Read_remaining_simps
        split: if_splits)

text \<open>
  An instance that comes back from the pool with three cells of capacity, configured
  with a promise that rejects.
\<close>

theorem rejection_leaves_remaining_witness:
  "outcome (Read (newReaderArrayPromise
                   (fst (Close 1024 (fst (newReaderArrayBuffer new_arrayReader [1, 2, 3]))))
                   (Rejects ''network error'')) [0, 0])
     = Returns 0 (Some (JSError ''network error'')) \<and>
   remaining (newReaderArrayPromise
                (fst (Close 1024 (fst (newReaderArrayBuffer new_arrayReader [1, 2, 3]))))
                (Rejects ''network error'')) = Slice [] [1, 2, 3] \<and>
   remaining (reader (Read (newReaderArrayPromise
                (fst (Close 1024 (fst (newReaderArrayBuffer new_arrayReader [1, 2, 3]))))
                (Rejects ''network error'')) [0, 0])) = Slice [] [1, 2, 3]"
proof -
  have h: "outcome (Read (newReaderArrayPromise
                   (fst (Close 1024 (fst (newReaderArrayBuffer new_arrayReader [1, 2, 3]))))
                   (Rejects ''network error'')) [0, 0])
     = Returns 0 (Some (JSError ''network error''))"
    by (simp add: run_defs)
  have r: "remaining (newReaderArrayPromise
                (fst (Close 1024 (fst (newReaderArrayBuffer new_arrayReader [1, 2, 3]))))
                (Rejects ''network error'')) = Slice [] [1, 2, 3]"
    by (simp add: run_defs)
  show ?thesis using h r rejection_leaves_remaining [OF h] by simp
qed

text \<open>
  Claim C8. On an acquired instance with no failure set and bytes left in
  \<^verbatim>\<open>remaining\<close>, a read into a destination of length zero returns \<^verbatim>\<open>(0, nil)\<close> and
  changes nothing; on a resolved instance whose \<^verbatim>\<open>remaining\<close> is empty the same read
  returns \<^verbatim>\<open>(0, io.EOF)\<close>.
\<close>

theorem zero_length_destination:
  assumes "acquired bufMax ar"
  shows "(err ar = None \<and> 0 < slen (remaining ar) \<longrightarrow>
            Read ar [] = \<lparr>outcome = Returns 0 None, buf_out = [], reader = ar, then_calls = []\<rparr>) \<and>
         (read ar \<and> slen (remaining ar) = 0 \<longrightarrow>
            Read ar [] =
              \<lparr>outcome = Returns 0 (Some EOF), buf_out = [], reader = ar, then_calls = []\<rparr>)"
proof -
  from acquired_invariant [OF assms]
  have e: "err ar = None" and r: "read ar \<or> bytes_of (remaining ar) = []" by simp_all
  have "Read ar [] = \<lparr>outcome = Returns 0 None, buf_out = [], reader = ar, then_calls = []\<rparr>"
    if "0 < slen (remaining ar)"
  proof -
    from that r have "read ar" by (auto simp add: slen_def)
    then have "Read ar [] = Read_remaining ar [] []" using e by (simp add: Read_resolved)
    then show ?thesis using that by (simp add: Read_remaining_def copy_def slice_from_0)
  qed
  moreover
  have "Read ar [] = \<lparr>outcome = Returns 0 (Some EOF), buf_out = [], reader = ar, then_calls = []\<rparr>"
    if "read ar \<and> slen (remaining ar) = 0"
    using that e by (simp add: Read_after_EOF)
  ultimately show ?thesis by blast
qed

theorem zero_length_destination_witness:
  "acquired 1024 (fst (newReaderArrayBuffer new_arrayReader [1, 2, 3])) \<and>
   err (fst (newReaderArrayBuffer new_arrayReader [1, 2, 3])) = None \<and>
   0 < slen (remaining (fst (newReaderArrayBuffer new_arrayReader [1, 2, 3]))) \<and>
   Read (fst (newReaderArrayBuffer new_arrayReader [1, 2, 3])) [] =
     \<lparr>outcome = Returns 0 None, buf_out = [],
        reader = fst (newReaderArrayBuffer new_arrayReader [1, 2, 3]), then_calls = []\<rparr> \<and>
   acquired 1024 (fst (newReaderArrayBuffer new_arrayReader [])) \<and>
   read (fst (newReaderArrayBuffer new_arrayReader [])) \<and>
   slen (remaining (fst (newReaderArrayBuffer new_arrayReader []))) = 0 \<and>
   Read (fst (newReaderArrayBuffer new_arrayReader [])) [] =
     \<lparr>outcome = Returns 0 (Some EOF), buf_out = [],
        reader = fst (newReaderArrayBuffer new_arrayReader []), then_calls = []\<rparr>"
proof -
  have a: "acquired 1024 (fst (newReaderArrayBuffer new_arrayReader src))" for src
    by (rule acquired_buffer) (rule pooled_New)
  have s: "err (fst (newReaderArrayBuffer new_arrayReader [1, 2, 3])) = None"
    "0 < slen (remaining (fst (newReaderArrayBuffer new_arrayReader [1, 2, 3])))"
    "read (fst (newReaderArrayBuffer new_arrayReader []))"
    "slen (remaining (fst (newReaderArrayBuffer new_arrayReader []))) = 0"
    by (simp_all add: run_defs)
  show ?thesis
    using zero_length_destination [OF a [of "[1, 2, 3]"]]
      zero_length_destination [OF a [of "[]"]] a s
    by simp
qed

text \<open>
  Claim C9. \<^verbatim>\<open>newReaderArrayBuffer\<close> on a pooled instance and a buffer of length zero
  reports the byte count 0, and the first read returns \<^verbatim>\<open>(0, io.EOF)\<close> and leaves its
  destination and the instance as they were.
\<close>

theorem empty_buffer_EOF_at_once:
  assumes "pooled bufMax got"
  shows "snd (newReaderArrayBuffer got []) = 0 \<and>
         Read (fst (newReaderArrayBuffer got [])) buf =
           \<lparr>outcome = Returns 0 (Some EOF), buf_out = buf,
              reader = fst (newReaderArrayBuffer got []), then_calls = []\<rparr>"
proof -
  let ?ar = "fst (newReaderArrayBuffer got [])"
  have "slen (remaining ?ar) = 0" "err ?ar = None" "read ?ar"
    using pooled_fields [OF assms]
    by (simp_all add: newReaderArrayBuffer_def Let_def slen_def bytes_of_fromArray)
  then show ?thesis
    by (simp add: Read_after_EOF) (simp add: newReaderArrayBuffer_def Let_def)
qed

theorem empty_buffer_EOF_at_once_witness:
  "pooled 1024 new_arrayReader \<and> snd (newReaderArrayBuffer new_arrayReader []) = 0 \<and>
   Read (fst (newReaderArrayBuffer new_arrayReader [])) [5, 6] =
     \<lparr>outcome = Returns 0 (Some EOF), buf_out = [5, 6],
        reader = fst (newReaderArrayBuffer new_arrayReader []), then_calls = []\<rparr>"
  using empty_buffer_EOF_at_once [where bufMax = 1024 and got = new_arrayReader and buf = "[5, 6]"]
    pooled_New [of 1024]
  by simp

text \<open>
  Claim C10. Whatever the state of the instance, a read that returns gives either
  \<^verbatim>\<open>(n, nil)\<close> with \<open>n\<close> at most the length of the destination, or the byte count 0
  together with \<^verbatim>\<open>io.EOF\<close> or with a failure.
\<close>

theorem terminal_status_zero_bytes:
  assumes "outcome (Read ar buf) = Returns n st"
  shows "(st = None \<and> n \<le> length buf) \<or>
         (n = 0 \<and> (st = Some EOF \<or> (\<exists>m. st = Some (JSError m))))"
proof (cases "err ar")
  case (Some e)
  then have "n = 0" "st = Some e" using assms by (simp_all add: Read_failed)
  then show ?thesis by (cases e) simp_all
next
  case None
  then show ?thesis using assms
    by (cases "read ar"; cases "jsPromise ar")
       (auto simp add: Read_resolved Read_unresolved Read_remaining_simps split: if_splits)
qed

theorem terminal_status_zero_bytes_witness:
  "outcome (Read (fst (newReaderArrayBuffer new_arrayReader [1, 2, 3])) [0, 0]) = Returns 2 None \<and>
   (2 :: nat) \<le> length [0, 0 :: byte]"
proof -
  have h: "outcome (Read (fst (newReaderArrayBuffer new_arrayReader [1, 2, 3])) [0, 0])
      = Returns 2 None"
    by (simp add: run_defs)
  show ?thesis using h terminal_status_zero_bytes [OF h] by simp
qed

end
